theory Spec2Isabelle
  imports Main "HOL-Library.Char_ord" "HOL-Library.List_Lexorder" "HOL-Library.Multiset"
begin

section \<open>JSON values as the engine sees them\<close>

text \<open>
  The shared helpers of the json tools (\<^verbatim>\<open>common.mjs\<close>) work on the value tree that
  \<^verbatim>\<open>JSON.parse\<close> returns. A mapping is the list of its own properties in the order in
  which \<^verbatim>\<open>Object.keys\<close>, \<^verbatim>\<open>Object.values\<close> and \<^verbatim>\<open>Object.entries\<close> enumerate them.
  Numbers are the integer-valued ones (those \<^verbatim>\<open>typeName\<close> tags \<^verbatim>\<open>int\<close>), printed by
  their exact decimal digits, as \<^verbatim>\<open>String\<close> and \<^verbatim>\<open>JSON.stringify\<close> print the integers
  that a double holds exactly (those of magnitude up to \<open>2\<^sup>5\<^sup>3\<close>); strings are lists of
  8-bit characters.
\<close>

datatype json =
    JNull
  | JBool bool
  | JNum int
  | JStr string
  | JArr "json list"
  | JObj "(string \<times> json) list"

text \<open>\<^verbatim>\<open>Array.isArray(value)\<close>.\<close>

fun isArray :: "json \<Rightarrow> bool" where
  "isArray (JArr xs) = True"
| "isArray v = False"

text \<open>\<^verbatim>\<open>value && typeof value === "object"\<close>: an array or a mapping; \<^verbatim>\<open>null\<close> is falsy.\<close>

fun truthy_object :: "json \<Rightarrow> bool" where
  "truthy_object (JArr xs) = True"
| "truthy_object (JObj kvs) = True"
| "truthy_object v = False"

section \<open>Digits and decimal strings\<close>

definition is_digit :: "char \<Rightarrow> bool" where
  "is_digit c = (CHR ''0'' \<le> c \<and> c \<le> CHR ''9'')"

definition digit_val :: "char \<Rightarrow> nat" where
  "digit_val c = of_char c - 48"

text \<open>\<^verbatim>\<open>Number.parseInt(digits, 10)\<close> on a string of decimal digits.\<close>

definition parseInt :: "string \<Rightarrow> nat" where
  "parseInt ds = fold (\<lambda>c n. 10 * n + digit_val c) ds 0"

text \<open>
  A canonical numeric string: the decimal digits of a natural number without a leading
  zero. These are the strings that name the elements of an array.
\<close>

definition canonical_index :: "string \<Rightarrow> bool" where
  "canonical_index k =
     (k \<noteq> [] \<and> list_all is_digit k \<and> (k = ''0'' \<or> hd k \<noteq> CHR ''0''))"

section \<open>Path expressions\<close>

text \<open>
  A token is what \<^verbatim>\<open>parsePath\<close> pushes: a string (a mapping key, or \<^verbatim>\<open>"*"\<close> for the
  wildcard) or the number \<^verbatim>\<open>Number.parseInt\<close> returned for the digits of a bracket
  token. The number is kept exact; the double it stands for is the nearest one, which is
  the same number up to \<open>2\<^sup>5\<^sup>3\<close>.
\<close>

datatype token = TStr string | TNum nat

text \<open>
  The path argument of the exported functions: \<^verbatim>\<open>null\<close>/\<^verbatim>\<open>undefined\<close>, a string, or an
  array (an already-parsed token sequence).
\<close>

datatype path = PNull | PStr string | PArr "token list"

text \<open>
  What the helpers can throw: a TypeError for a call of a method that the value does not
  have, and a RangeError for a call that spreads more arguments than the engine accepts.
\<close>

datatype error = TypeError | RangeError

text \<open>
  \<^verbatim>\<open>PATH_TOKEN_RE = /([^.\[\]]+)|(\[(\*|\d+)\])/g\<close>. The characters that the first
  alternative excludes:
\<close>

definition is_sep :: "char \<Rightarrow> bool" where
  "is_sep c = (c = CHR ''.'' \<or> c = CHR ''['' \<or> c = CHR '']'')"

text \<open>
  The second alternative, \<^verbatim>\<open>\[(\*|\d+)\]\<close>, tried at the head of the string: the token
  it yields and the rest of the input after the match.
\<close>

fun match_bracket :: "string \<Rightarrow> (token \<times> string) option" where
  "match_bracket [] = None"
| "match_bracket (c # cs) =
     (if c \<noteq> CHR ''['' then None
      else (case cs of
              [] \<Rightarrow> None
            | d # ds \<Rightarrow>
                if d = CHR ''*'' then
                  (case ds of
                     [] \<Rightarrow> None
                   | e # rest \<Rightarrow> if e = CHR '']'' then Some (TStr ''*'', rest) else None)
                else if is_digit d then
                  (case dropWhile is_digit cs of
                     [] \<Rightarrow> None
                   | e # rest \<Rightarrow>
                       if e = CHR '']''
                       then Some (TNum (parseInt (takeWhile is_digit cs)), rest)
                       else None)
                else None))"

lemma match_bracket_shorter:
  assumes "match_bracket s = Some (tok, rest)"
  shows "length rest < length s"
proof (cases s)
  case Nil
  with assms show ?thesis by simp
next
  case (Cons c cs)
  have dw: "length (dropWhile is_digit cs) \<le> length cs"
    by (rule length_dropWhile_le)
  from assms Cons dw show ?thesis
    by (auto split: if_splits list.splits)
qed

text \<open>
  \<^verbatim>\<open>path.matchAll(PATH_TOKEN_RE)\<close> with the loop body of \<^verbatim>\<open>parsePath\<close>: at each position
  the regular expression is tried, first alternative first; where neither alternative
  matches, the search moves on by one character.
\<close>

function scan :: "string \<Rightarrow> token list" where
  "scan [] = []"
| "scan (c # cs) =
     (if \<not> is_sep c then
        TStr (c # takeWhile (\<lambda>x. \<not> is_sep x) cs) # scan (dropWhile (\<lambda>x. \<not> is_sep x) cs)
      else (case match_bracket (c # cs) of
              Some (tok, rest) \<Rightarrow> tok # scan rest
            | None \<Rightarrow> scan cs))"
  by pat_completeness auto
termination
  by (relation "measure length")
     (auto simp del: match_bracket.simps simp: less_Suc_eq_le length_dropWhile_le
           dest: match_bracket_shorter)

text \<open>
  \<^verbatim>\<open>parsePath(path)\<close>. A falsy path gives no tokens. An array has no \<^verbatim>\<open>matchAll\<close> method
  and is truthy even when empty, so the call \<^verbatim>\<open>path.matchAll(...)\<close> throws a TypeError.
\<close>

fun parsePath :: "path \<Rightarrow> error + token list" where
  "parsePath PNull = Inr []"
| "parsePath (PStr s) = (if s = [] then Inr [] else Inr (scan s))"
| "parsePath (PArr ts) = Inl TypeError"

text \<open>
  What \<^verbatim>\<open>parsePath\<close> can push for a string: a non-empty key without \<^verbatim>\<open>.\<close>, \<^verbatim>\<open>[\<close> or
  \<^verbatim>\<open>]\<close> (the wildcard \<^verbatim>\<open>"*"\<close> is such a string), or a number.
\<close>

fun valid_token :: "token \<Rightarrow> bool" where
  "valid_token (TStr k) = (k \<noteq> [] \<and> list_all (\<lambda>c. \<not> is_sep c) k)"
| "valid_token (TNum n) = True"

text \<open>
  The text of the input that a token stands for: a key is its own text; a number stands
  for the digits between the brackets, which \<^verbatim>\<open>Number.parseInt\<close> read.
\<close>

fun token_text :: "token \<Rightarrow> string \<Rightarrow> bool" where
  "token_text (TStr k) raw = (raw = k)"
| "token_text (TNum n) raw = (raw \<noteq> [] \<and> list_all is_digit raw \<and> parseInt raw = n)"

section \<open>Evaluating a path\<close>

text \<open>
  \<^verbatim>\<open>Number.isInteger(token)\<close>: false for a string, true for a number unless the digits
  denote a value so large that \<^verbatim>\<open>Number.parseInt\<close> returned \<^verbatim>\<open>Infinity\<close>.
\<close>

definition double_overflow :: nat where
  "double_overflow = 2 ^ 1024 - 2 ^ 970"

fun isInteger :: "token \<Rightarrow> bool" where
  "isInteger (TStr s) = False"
| "isInteger (TNum n) = (n < double_overflow)"

text \<open>
  The property key a token is converted to in \<^verbatim>\<open>Object.hasOwn(item, token)\<close> and
  \<^verbatim>\<open>item[token]\<close>. A number token reaches that branch only as \<^verbatim>\<open>Infinity\<close>.
\<close>

fun propertyKey :: "token \<Rightarrow> string" where
  "propertyKey (TStr s) = s"
| "propertyKey (TNum n) = ''Infinity''"

text \<open>
  The own properties of a value that is an object: the entries of a mapping; for an
  array its elements under their canonical index strings, and \<^verbatim>\<open>length\<close>.
\<close>

fun own_property :: "json \<Rightarrow> string \<Rightarrow> json option" where
  "own_property (JObj kvs) k = map_of kvs k"
| "own_property (JArr xs) k =
     (if k = ''length'' then Some (JNum (int (length xs)))
      else if canonical_index k \<and> parseInt k < length xs then Some (xs ! parseInt k)
      else None)"
| "own_property v k = None"

text \<open>
  \<^verbatim>\<open>nextValues.push(...items)\<close> passes every element as an argument of one call. The
  engine accepts only so many arguments in a call and throws a RangeError beyond; that
  number is not fixed by the source and is a parameter, \<open>spread_limit\<close>, of the model.
\<close>

definition spread :: "nat \<Rightarrow> json list \<Rightarrow> error + json list" where
  "spread spread_limit items =
     (if length items \<le> spread_limit then Inr items else Inl RangeError)"

text \<open>
  The body of the inner loop of \<^verbatim>\<open>extractValues\<close>: what one item of the working set
  pushes onto \<^verbatim>\<open>nextValues\<close> for one token.
\<close>

definition emit :: "nat \<Rightarrow> token \<Rightarrow> json \<Rightarrow> error + json list" where
  "emit spread_limit token item =
     (if token = TStr ''*'' then
        (case item of
           JArr xs \<Rightarrow> spread spread_limit xs
         | JObj kvs \<Rightarrow> spread spread_limit (map snd kvs)
         | _ \<Rightarrow> Inr [])
      else if isInteger token then
        (case (token, item) of
           (TNum n, JArr xs) \<Rightarrow>
             if - int (length xs) \<le> int n \<and> n < length xs then Inr [xs ! n] else Inr []
         | _ \<Rightarrow> Inr [])
      else if truthy_object item then
        (case own_property item (propertyKey token) of Some v \<Rightarrow> Inr [v] | None \<Rightarrow> Inr [])
      else Inr [])"

text \<open>
  The inner loop \<^verbatim>\<open>for (const item of values)\<close> for one token: the values pushed, in
  order, or the first error thrown.
\<close>

fun emit_all :: "nat \<Rightarrow> token \<Rightarrow> json list \<Rightarrow> error + json list" where
  "emit_all spread_limit token [] = Inr []"
| "emit_all spread_limit token (item # rest) =
     (case emit spread_limit token item of
        Inl e \<Rightarrow> Inl e
      | Inr pushed \<Rightarrow>
          (case emit_all spread_limit token rest of
             Inl e \<Rightarrow> Inl e
           | Inr more \<Rightarrow> Inr (pushed @ more)))"

text \<open>The outer loop \<^verbatim>\<open>for (const token of tokens)\<close>, which replaces the working set.\<close>

fun eval_tokens :: "nat \<Rightarrow> token list \<Rightarrow> json list \<Rightarrow> error + json list" where
  "eval_tokens spread_limit [] values = Inr values"
| "eval_tokens spread_limit (token # tokens) values =
     (case emit_all spread_limit token values of
        Inl e \<Rightarrow> Inl e
      | Inr nextValues \<Rightarrow> eval_tokens spread_limit tokens nextValues)"

definition extractValues :: "nat \<Rightarrow> json \<Rightarrow> path \<Rightarrow> error + json list" where
  "extractValues spread_limit data p =
     (case parsePath p of
        Inl e \<Rightarrow> Inl e
      | Inr tokens \<Rightarrow>
          if tokens = [] then Inr [data] else eval_tokens spread_limit tokens [data])"

text \<open>
  A value that no wildcard can spread beyond the limit: every array and every mapping in
  it has at most \<open>lim\<close> elements.
\<close>

fun bounded :: "nat \<Rightarrow> json \<Rightarrow> bool"
  and bounded_list :: "nat \<Rightarrow> json list \<Rightarrow> bool"
  and bounded_entries :: "nat \<Rightarrow> (string \<times> json) list \<Rightarrow> bool"
where
  "bounded lim (JArr xs) = (length xs \<le> lim \<and> bounded_list lim xs)"
| "bounded lim (JObj kvs) = (length kvs \<le> lim \<and> bounded_entries lim kvs)"
| "bounded lim JNull = True"
| "bounded lim (JBool b) = True"
| "bounded lim (JNum n) = True"
| "bounded lim (JStr s) = True"
| "bounded_list lim [] = True"
| "bounded_list lim (x # xs) = (bounded lim x \<and> bounded_list lim xs)"
| "bounded_entries lim [] = True"
| "bounded_entries lim ((k, v) # kvs) = (bounded lim v \<and> bounded_entries lim kvs)"

section \<open>Resolving the record array\<close>

text \<open>The test \<^verbatim>\<open>if (arrayPath)\<close>: an empty string is falsy, an array is truthy.\<close>

definition truthy_path :: "path \<Rightarrow> bool" where
  "truthy_path p = (case p of PNull \<Rightarrow> False | PStr s \<Rightarrow> s \<noteq> [] | PArr ts \<Rightarrow> True)"

text \<open>\<^verbatim>\<open>value && typeof value === "object" && !Array.isArray(value)\<close>.\<close>

fun is_mapping :: "json \<Rightarrow> bool" where
  "is_mapping (JObj kvs) = True"
| "is_mapping v = False"

text \<open>
  \<^verbatim>\<open>resolveArray(data, arrayPath)\<close>. The two loops return at the first array, and then at
  the first mapping, among the extracted values.
\<close>

definition resolveArray :: "nat \<Rightarrow> json \<Rightarrow> path \<Rightarrow> error + json list" where
  "resolveArray spread_limit data arrayPath =
     (if truthy_path arrayPath then
        (case extractValues spread_limit data arrayPath of
           Inl e \<Rightarrow> Inl e
         | Inr values \<Rightarrow>
             (case find isArray values of
                Some (JArr xs) \<Rightarrow> Inr xs
              | _ \<Rightarrow>
                  (case find is_mapping values of
                     Some (JObj kvs) \<Rightarrow> Inr (map snd kvs)
                   | _ \<Rightarrow> Inr [])))
      else (case data of JArr xs \<Rightarrow> Inr xs | _ \<Rightarrow> Inr []))"

section \<open>Printing numbers\<close>

text \<open>
  The decimal digits of a number, as a template literal and \<^verbatim>\<open>String\<close> print an integer.
  \<open>digit_char\<close> also serves the hexadecimal digits of an escape sequence.
\<close>

definition digit_char :: "nat \<Rightarrow> char" where
  "digit_char d = ''0123456789abcdef'' ! d"

fun nat_to_string :: "nat \<Rightarrow> string" where
  "nat_to_string n =
     (if n < 10 then [digit_char n] else nat_to_string (n div 10) @ [digit_char (n mod 10)])"

declare nat_to_string.simps [simp del]

definition int_to_string :: "int \<Rightarrow> string" where
  "int_to_string i =
     (if i < 0 then CHR ''-'' # nat_to_string (nat (- i)) else nat_to_string (nat i))"

section \<open>Plain objects under construction\<close>

text \<open>
  \<^verbatim>\<open>flattenJson\<close> and \<^verbatim>\<open>stableSortKeys\<close> start from an empty object literal and fill it
  by assignments \<^verbatim>\<open>obj[key] = value\<close>. The own properties are kept in the order in which
  they are enumerated: the array-index keys (canonical numeric strings up to \<open>2\<^sup>3\<^sup>2 - 2\<close>)
  in ascending numeric order first, then the other keys in the order of their creation.
\<close>

type_synonym props = "(string \<times> json) list"

definition array_index_key :: "string \<Rightarrow> bool" where
  "array_index_key k = (canonical_index k \<and> parseInt k < 2 ^ 32 - 1)"

text \<open>A key that the object does not own yet takes its place in the enumeration order.\<close>

fun insert_property :: "string \<Rightarrow> json \<Rightarrow> props \<Rightarrow> props" where
  "insert_property k v [] = [(k, v)]"
| "insert_property k v ((k', v') # ps) =
     (if array_index_key k \<and> (if array_index_key k' then parseInt k < parseInt k' else True)
      then (k, v) # (k', v') # ps
      else (k', v') # insert_property k v ps)"

text \<open>A key that the object owns keeps its place and takes the new value.\<close>

fun update_property :: "string \<Rightarrow> json \<Rightarrow> props \<Rightarrow> props" where
  "update_property k v [] = []"
| "update_property k v ((k', v') # ps) =
     (if k' = k then (k', v) # ps else (k', v') # update_property k v ps)"

definition put_property :: "string \<Rightarrow> json \<Rightarrow> props \<Rightarrow> props" where
  "put_property k v ps =
     (if k \<in> set (map fst ps) then update_property k v ps else insert_property k v ps)"

text \<open>
  The assignment \<^verbatim>\<open>obj["__proto__"] = value\<close> does not create a property while the setter
  inherited from \<^verbatim>\<open>Object.prototype\<close> is in reach: it replaces the prototype when the value
  is an object or \<^verbatim>\<open>null\<close> and does nothing otherwise. Once the prototype is \<^verbatim>\<open>null\<close> the
  setter is out of reach and \<^verbatim>\<open>__proto__\<close> is a key like any other. The objects that can
  become the prototype here (arrays and empty objects) all inherit the setter, so the state
  of an object under construction is its own properties and whether its prototype chain
  has been cut.
\<close>

record jsobject =
  own :: props
  proto_cut :: bool

definition empty_object :: jsobject where
  "empty_object = \<lparr>own = [], proto_cut = False\<rparr>"

definition assign :: "string \<Rightarrow> json \<Rightarrow> jsobject \<Rightarrow> jsobject" where
  "assign k v obj =
     (if k = ''__proto__'' \<and> \<not> proto_cut obj
      then (if v = JNull then obj\<lparr>proto_cut := True\<rparr> else obj)
      else obj\<lparr>own := put_property k v (own obj)\<rparr>)"

section \<open>Flattening\<close>

text \<open>
  The inner function \<^verbatim>\<open>walk(value, prefix)\<close> of \<^verbatim>\<open>flattenJson\<close>, with the object \<^verbatim>\<open>output\<close>
  it writes to passed along. \<open>walk_entries\<close> is the loop over \<^verbatim>\<open>Object.entries(value)\<close>,
  \<open>walk_items\<close> the \<^verbatim>\<open>value.forEach((inner, idx) => ...)\<close> with its running index. The array
  mode is the string the caller passes; any string other than \<^verbatim>\<open>ignore\<close> and \<^verbatim>\<open>expand\<close>
  behaves as \<^verbatim>\<open>index\<close>.
\<close>

fun walk :: "string \<Rightarrow> string \<Rightarrow> json \<Rightarrow> string \<Rightarrow> jsobject \<Rightarrow> jsobject"
  and walk_entries ::
    "string \<Rightarrow> string \<Rightarrow> (string \<times> json) list \<Rightarrow> string \<Rightarrow> jsobject \<Rightarrow> jsobject"
  and walk_items ::
    "string \<Rightarrow> string \<Rightarrow> json list \<Rightarrow> nat \<Rightarrow> string \<Rightarrow> jsobject \<Rightarrow> jsobject"
where
  "walk separator arrayMode (JObj kvs) prefix output =
     (if kvs = [] \<and> prefix \<noteq> [] then assign prefix (JObj []) output
      else walk_entries separator arrayMode kvs prefix output)"
| "walk separator arrayMode (JArr xs) prefix output =
     (if arrayMode = ''ignore'' then assign prefix (JArr xs) output
      else if arrayMode = ''expand'' \<and> list_all (\<lambda>item. \<not> truthy_object item) xs
      then assign prefix (JArr xs) output
      else (let output' = walk_items separator arrayMode xs 0 prefix output
            in if xs = [] \<and> prefix \<noteq> [] then assign prefix (JArr []) output' else output'))"
| "walk separator arrayMode JNull prefix output = assign prefix JNull output"
| "walk separator arrayMode (JBool b) prefix output = assign prefix (JBool b) output"
| "walk separator arrayMode (JNum n) prefix output = assign prefix (JNum n) output"
| "walk separator arrayMode (JStr s) prefix output = assign prefix (JStr s) output"
| "walk_entries separator arrayMode [] prefix output = output"
| "walk_entries separator arrayMode ((key, inner) # rest) prefix output =
     walk_entries separator arrayMode rest prefix
       (walk separator arrayMode inner
          (if prefix \<noteq> [] then prefix @ separator @ key else key) output)"
| "walk_items separator arrayMode [] idx prefix output = output"
| "walk_items separator arrayMode (inner # rest) idx prefix output =
     walk_items separator arrayMode rest (Suc idx) prefix
       (walk separator arrayMode inner
          (if arrayMode = ''expand'' then prefix
           else if prefix \<noteq> [] then prefix @ ''['' @ nat_to_string idx @ '']''
           else ''['' @ nat_to_string idx @ '']'') output)"

definition flattenJson :: "json \<Rightarrow> string \<Rightarrow> string \<Rightarrow> json" where
  "flattenJson data separator arrayMode =
     JObj (own (walk separator arrayMode data [] empty_object))"

section \<open>Canonical strings and frequency counting\<close>

text \<open>\<^verbatim>\<open>Array.prototype.join\<close> on strings.\<close>

fun join :: "string \<Rightarrow> string list \<Rightarrow> string" where
  "join sep [] = []"
| "join sep [x] = x"
| "join sep (x # y # ys) = x @ sep @ join sep (y # ys)"

text \<open>
  \<^verbatim>\<open>JSON.stringify\<close> without indentation. In a string the double quote, the backslash and
  the control characters are escaped.
\<close>

definition escape_char :: "char \<Rightarrow> string" where
  "escape_char c =
     (if c = CHR 0x22 then [CHR 0x5C, CHR 0x22]
      else if c = CHR 0x5C then [CHR 0x5C, CHR 0x5C]
      else if c = CHR 0x08 then [CHR 0x5C, CHR ''b'']
      else if c = CHR 0x0C then [CHR 0x5C, CHR ''f'']
      else if c = CHR 0x0A then [CHR 0x5C, CHR ''n'']
      else if c = CHR 0x0D then [CHR 0x5C, CHR ''r'']
      else if c = CHR 0x09 then [CHR 0x5C, CHR ''t'']
      else if (of_char c :: nat) < 32
      then [CHR 0x5C, CHR ''u'', CHR ''0'', CHR ''0'',
            digit_char (of_char c div 16), digit_char (of_char c mod 16)]
      else [c])"

definition quote :: "string \<Rightarrow> string" where
  "quote s = CHR 0x22 # concat (map escape_char s) @ [CHR 0x22]"

fun stringify :: "json \<Rightarrow> string" where
  "stringify JNull = ''null''"
| "stringify (JBool b) = (if b then ''true'' else ''false'')"
| "stringify (JNum n) = int_to_string n"
| "stringify (JStr s) = quote s"
| "stringify (JArr xs) = ''['' @ join '','' (map stringify xs) @ '']''"
| "stringify (JObj kvs) =
     ''{'' @ join '','' (map (\<lambda>(k, v). quote k @ '':'' @ stringify v) kvs) @ ''}''"

text \<open>
  \<^verbatim>\<open>stableSortKeys(value)\<close>. For a mapping the keys are sorted (by code units, as
  \<^verbatim>\<open>Array.prototype.sort\<close> does without a comparator) and \<^verbatim>\<open>out[key] =
  stableSortKeys(value[key])\<close> is executed for each key in that order: the entries with
  their values canonicalised, sorted by key, are assigned to a fresh object one by one.
\<close>

fun stableSortKeys :: "json \<Rightarrow> json" where
  "stableSortKeys (JArr xs) = JArr (map stableSortKeys xs)"
| "stableSortKeys (JObj kvs) =
     JObj (own (fold (\<lambda>(key, v) out. assign key v out)
                  (sort_key fst (map (map_prod id stableSortKeys) kvs)) empty_object))"
| "stableSortKeys v = v"

text \<open>
  \<^verbatim>\<open>pyScalarString(value)\<close>. \<^verbatim>\<open>frequency\<close> calls it for values that are not objects only,
  and it is left unspecified elsewhere.
\<close>

fun pyScalarString :: "json \<Rightarrow> string" where
  "pyScalarString JNull = ''None''"
| "pyScalarString (JBool True) = ''True''"
| "pyScalarString (JBool False) = ''False''"
| "pyScalarString (JNum n) = int_to_string n"
| "pyScalarString (JStr s) = s"

text \<open>
  The key under which \<^verbatim>\<open>frequency\<close> counts a value (its local \<^verbatim>\<open>normalized\<close>): the
  canonical string of the value.
\<close>

definition normalized :: "json \<Rightarrow> string" where
  "normalized v =
     (if truthy_object v then stringify (stableSortKeys v) else pyScalarString v)"

text \<open>
  \<^verbatim>\<open>counts.set(normalized, (counts.get(normalized) ?? 0) + 1)\<close> on a \<^verbatim>\<open>Map\<close>, which keeps
  its keys in insertion order.
\<close>

fun count_up :: "string \<Rightarrow> (string \<times> nat) list \<Rightarrow> (string \<times> nat) list" where
  "count_up k [] = [(k, 0 + 1)]"
| "count_up k ((k', n) # counts) =
     (if k' = k then (k', n + 1) # counts else (k', n) # count_up k counts)"

definition frequency :: "json list \<Rightarrow> (string \<times> nat) list" where
  "frequency values = fold (\<lambda>v counts. count_up (normalized v) counts) values []"

text \<open>\<^verbatim>\<open>typeName(value)\<close>; every number of this model is integer-valued.\<close>

fun typeName :: "json \<Rightarrow> string" where
  "typeName JNull = ''null''"
| "typeName (JBool b) = ''bool''"
| "typeName (JNum n) = ''int''"
| "typeName (JStr s) = ''string''"
| "typeName (JArr xs) = ''array''"
| "typeName (JObj kvs) = ''object''"

section \<open>Structural equality\<close>

text \<open>
  Two values are structurally equal when they have the same type tree and the same keys
  and values, the order of the keys of a mapping being ignored: scalars are equal, arrays
  are equal element by element, and two mappings (each with distinct keys) have the same
  key set and structurally equal values under every key.
\<close>

fun struct_eq :: "json \<Rightarrow> json \<Rightarrow> bool"
  and struct_eq_list :: "json list \<Rightarrow> json list \<Rightarrow> bool"
  and struct_eq_entries :: "(string \<times> json) list \<Rightarrow> (string \<times> json) list \<Rightarrow> bool"
where
  "struct_eq JNull w = (w = JNull)"
| "struct_eq (JBool b) w = (w = JBool b)"
| "struct_eq (JNum n) w = (w = JNum n)"
| "struct_eq (JStr s) w = (w = JStr s)"
| "struct_eq (JArr xs) w = (case w of JArr ys \<Rightarrow> struct_eq_list xs ys | _ \<Rightarrow> False)"
| "struct_eq (JObj kvs) w =
     (case w of
        JObj kvs' \<Rightarrow>
          distinct (map fst kvs) \<and> distinct (map fst kvs') \<and>
          set (map fst kvs) = set (map fst kvs') \<and> struct_eq_entries kvs kvs'
      | _ \<Rightarrow> False)"
| "struct_eq_list [] ys = (ys = [])"
| "struct_eq_list (x # xs) ys =
     (case ys of y # ys' \<Rightarrow> struct_eq x y \<and> struct_eq_list xs ys' | [] \<Rightarrow> False)"
| "struct_eq_entries [] kvs' = True"
| "struct_eq_entries ((k, v) # kvs) kvs' =
     ((case map_of kvs' k of Some v' \<Rightarrow> struct_eq v v' | None \<Rightarrow> False) \<and>
      struct_eq_entries kvs kvs')"

section \<open>Evaluation rules for concrete inputs\<close>

lemmas path_eval_simps =
  extractValues_def emit_def spread_def is_sep_def is_digit_def parseInt_def digit_val_def
  canonical_index_def double_overflow_def

lemmas object_eval_simps =
  empty_object_def assign_def put_property_def array_index_key_def canonical_index_def
  is_digit_def parseInt_def digit_val_def nat_to_string.simps digit_char_def

lemmas key_eval_simps =
  normalized_def int_to_string_def quote_def escape_char_def

section \<open>Decimal strings\<close>

lemma decimal_digit_table:
  "list_all (\<lambda>d. is_digit (digit_char d) \<and> digit_val (digit_char d) = d \<and>
                (0 < d \<longrightarrow> digit_char d \<noteq> CHR ''0'')) [0..<10]"
  by code_simp

lemma decimal_digit:
  assumes "d < 10"
  shows "is_digit (digit_char d)" and "digit_val (digit_char d) = d"
    and "0 < d \<Longrightarrow> digit_char d \<noteq> CHR ''0''"
proof -
  from assms have "d \<in> set [0..<10]" by simp
  with decimal_digit_table
  have "is_digit (digit_char d) \<and> digit_val (digit_char d) = d \<and>
        (0 < d \<longrightarrow> digit_char d \<noteq> CHR ''0'')"
    unfolding list_all_iff by blast
  then show "is_digit (digit_char d)" and "digit_val (digit_char d) = d"
    and "0 < d \<Longrightarrow> digit_char d \<noteq> CHR ''0''" by simp_all
qed

lemma nat_to_string_digits: "list_all is_digit (nat_to_string n)"
proof (induction n rule: nat_to_string.induct)
  case (1 n)
  show ?case
  proof (cases "n < 10")
    case True
    then show ?thesis by (simp add: nat_to_string.simps [of n] decimal_digit(1))
  next
    case False
    with 1 show ?thesis by (simp add: nat_to_string.simps [of n] decimal_digit(1))
  qed
qed

lemma nat_to_string_nonempty: "nat_to_string n \<noteq> []"
  by (simp add: nat_to_string.simps [of n])

lemma digit_not_sep: "is_digit c \<Longrightarrow> \<not> is_sep c"
  by (auto simp: is_digit_def is_sep_def)

lemma scan_negative_bracket:
  assumes "list_all is_digit ds"
  shows "scan (''[-'' @ ds @ '']'') = [TStr (CHR ''-'' # ds)]"
proof -
  have ns: "\<And>x. x \<in> set ds \<Longrightarrow> \<not> is_sep x"
    using assms by (auto simp: list_all_iff digit_not_sep)
  have tw: "takeWhile (\<lambda>x. \<not> is_sep x) (ds @ '']'') = ds"
    using ns by (simp add: takeWhile_append2 is_sep_def)
  have dw: "dropWhile (\<lambda>x. \<not> is_sep x) (ds @ '']'') = '']''"
    using ns by (simp add: dropWhile_append2 is_sep_def)
  have minus: "\<not> is_sep (CHR ''-'')" "\<not> is_digit (CHR ''-'')"
    by (simp_all add: is_sep_def is_digit_def)
  have "scan (''[-'' @ ds @ '']'') = scan (CHR ''-'' # ds @ '']'')"
    using minus by (simp add: is_sep_def)
  also have "\<dots> = TStr (CHR ''-'' # ds) # scan '']''"
    using minus tw dw by simp
  also have "scan '']'' = []"
    by (simp add: is_sep_def)
  finally show ?thesis .
qed

section \<open>Negative bracket indices\<close>

text \<open>
  C1. A negative index in brackets never reaches the index branch of \<^verbatim>\<open>extractValues\<close>:
  the bracket grammar takes digits only, so for every array and every number \<open>n\<close> the
  path \<^verbatim>\<open>"[-n]"\<close> is read as the mapping key \<^verbatim>\<open>"-n"\<close>, which no array owns, and nothing is
  extracted. On the array \<^verbatim>\<open>[10,20,30]\<close> the path \<^verbatim>\<open>"[-1]"\<close> yields the empty sequence,
  where the element \<^verbatim>\<open>30\<close> was expected, and so does \<^verbatim>\<open>"[-4]"\<close>.
\<close>

theorem extractValues_negative_index_empty:
  "extractValues lim (JArr xs) (PStr (''[-'' @ nat_to_string n @ '']'')) = Inr [] \<and>
   extractValues lim (JArr [JNum 10, JNum 20, JNum 30]) (PStr ''[-1]'') = Inr [] \<and>
   extractValues lim (JArr [JNum 10, JNum 20, JNum 30]) (PStr ''[-4]'') = Inr []"
proof (intro conjI)
  let ?ds = "nat_to_string n"
  have sc: "scan (''[-'' @ ?ds @ '']'') = [TStr (CHR ''-'' # ?ds)]"
    by (rule scan_negative_bracket) (rule nat_to_string_digits)
  have "\<not> is_digit (CHR ''-'')"
    by (simp add: is_digit_def)
  then have "own_property (JArr xs) (CHR ''-'' # ?ds) = None"
    by (simp add: canonical_index_def)
  then have "emit lim (TStr (CHR ''-'' # ?ds)) (JArr xs) = Inr []"
    by (simp add: emit_def)
  with sc show "extractValues lim (JArr xs) (PStr (''[-'' @ ?ds @ '']'')) = Inr []"
    by (simp add: extractValues_def)
qed (simp_all add: path_eval_simps)

section \<open>Key tokens on arrays\<close>

lemma parseInt_snoc: "parseInt (ds @ [c]) = 10 * parseInt ds + digit_val c"
  by (simp add: parseInt_def)

lemma parseInt_nat_to_string: "parseInt (nat_to_string n) = n"
proof (induction n rule: nat_to_string.induct)
  case (1 n)
  show ?case
  proof (cases "n < 10")
    case True
    then show ?thesis
      by (simp add: nat_to_string.simps [of n] parseInt_def decimal_digit(2))
  next
    case False
    with 1 have "parseInt (nat_to_string (n div 10)) = n div 10" by simp
    with False show ?thesis
      by (simp add: nat_to_string.simps [of n] parseInt_snoc decimal_digit(2))
  qed
qed

lemma hd_nat_to_string: "0 < n \<Longrightarrow> hd (nat_to_string n) \<noteq> CHR ''0''"
proof (induction n rule: nat_to_string.induct)
  case (1 n)
  show ?case
  proof (cases "n < 10")
    case True
    with 1(2) show ?thesis
      by (simp add: nat_to_string.simps [of n] decimal_digit(3))
  next
    case False
    then have "0 < n div 10" by simp
    with 1(1) False have "hd (nat_to_string (n div 10)) \<noteq> CHR ''0''" by simp
    with False show ?thesis
      by (simp add: nat_to_string.simps [of n] nat_to_string_nonempty)
  qed
qed

lemma canonical_nat_to_string: "canonical_index (nat_to_string n)"
proof (cases "n = 0")
  case True
  then show ?thesis
    by (simp add: canonical_index_def nat_to_string.simps digit_char_def is_digit_def)
next
  case False
  then show ?thesis
    by (simp add: canonical_index_def nat_to_string_nonempty nat_to_string_digits
        hd_nat_to_string)
qed

lemma scan_digits:
  assumes "list_all is_digit ds" and "ds \<noteq> []"
  shows "scan ds = [TStr ds]"
proof -
  from assms obtain c cs where ds: "ds = c # cs" by (cases ds) auto
  with assms have c: "\<not> is_sep c" and cs: "\<And>x. x \<in> set cs \<Longrightarrow> \<not> is_sep x"
    by (auto simp: list_all_iff digit_not_sep)
  from cs have tw: "takeWhile (\<lambda>x. \<not> is_sep x) cs = cs"
    and dw: "dropWhile (\<lambda>x. \<not> is_sep x) cs = []"
    by simp_all
  from c have "scan (c # cs) = [TStr (c # cs)]"
    by (simp only: scan.simps tw dw if_True not_False_eq_True simp_thms)
  with ds show ?thesis by simp
qed

text \<open>
  C2. A key token is tested with \<^verbatim>\<open>item && typeof item === "object" &&
  Object.hasOwn(item, token)\<close>, which an array passes for its index strings and for
  \<^verbatim>\<open>length\<close>: a key that is the decimal string of an index within the array extracts
  the element at that index. On the array \<^verbatim>\<open>[10,20]\<close> the path \<^verbatim>\<open>"0"\<close> extracts the
  element \<^verbatim>\<open>10\<close> and the path \<^verbatim>\<open>"length"\<close> extracts the number \<^verbatim>\<open>2\<close>, where nothing was
  expected.
\<close>

theorem extractValues_array_key:
  "(\<forall>xs i. i < length xs \<longrightarrow>
      extractValues lim (JArr xs) (PStr (nat_to_string i)) = Inr [xs ! i]) \<and>
   extractValues lim (JArr [JNum 10, JNum 20]) (PStr ''0'') = Inr [JNum 10] \<and>
   extractValues lim (JArr [JNum 10, JNum 20]) (PStr ''length'') = Inr [JNum 2]"
proof (intro conjI allI impI)
  fix xs :: "json list" and i
  assume i: "i < length xs"
  let ?k = "nat_to_string i"
  have sc: "scan ?k = [TStr ?k]"
    by (rule scan_digits) (simp_all add: nat_to_string_digits nat_to_string_nonempty)
  have star: "?k \<noteq> ''*''"
    using nat_to_string_digits [of i] by (auto simp: is_digit_def)
  have len: "?k \<noteq> ''length''"
    using nat_to_string_digits [of i] by (auto simp: is_digit_def)
  from i len have "own_property (JArr xs) ?k = Some (xs ! i)"
    by (simp add: canonical_nat_to_string parseInt_nat_to_string)
  with star have "emit lim (TStr ?k) (JArr xs) = Inr [xs ! i]"
    by (simp add: emit_def)
  with sc show "extractValues lim (JArr xs) (PStr ?k) = Inr [xs ! i]"
    by (simp add: extractValues_def nat_to_string_nonempty)
qed (simp_all add: path_eval_simps)

theorem extractValues_array_key_witness:
  "(1::nat) < length [JNum 10, JNum 20] \<and>
   (\<forall>lim. extractValues lim (JArr [JNum 10, JNum 20]) (PStr ''1'') = Inr [JNum 20])"
proof -
  have k: "nat_to_string 1 = ''1''"
    by (simp add: nat_to_string.simps digit_char_def)
  have h: "(1::nat) < length [JNum 10, JNum 20]" by simp
  have "extractValues lim (JArr [JNum 10, JNum 20]) (PStr (nat_to_string 1))
          = Inr [[JNum 10, JNum 20] ! 1]" for lim
    using extractValues_array_key [of lim] h by blast
  with k h show ?thesis by simp
qed

section \<open>Totality of the tokenizer\<close>

lemma match_bracket_valid:
  assumes "match_bracket s = Some (tok, rest)"
  shows "valid_token tok"
proof (cases s)
  case Nil
  with assms show ?thesis by simp
next
  case (Cons c cs)
  with assms show ?thesis
    by (auto simp: is_sep_def split: if_splits list.splits)
qed

lemma scan_valid: "list_all valid_token (scan s)"
proof (induction s rule: scan.induct)
  case 1
  show ?case by simp
next
  case (2 c cs)
  show ?case
  proof (cases "is_sep c")
    case False
    have "list_all (\<lambda>c. \<not> is_sep c) (takeWhile (\<lambda>x. \<not> is_sep x) cs)"
      by (auto simp: list_all_iff dest: set_takeWhileD)
    with False 2 show ?thesis by simp
  next
    case True
    show ?thesis
    proof (cases "match_bracket (c # cs)")
      case None
      with True 2 show ?thesis by (simp del: match_bracket.simps)
    next
      case (Some p)
      obtain tok rest where p: "p = (tok, rest)" by (cases p)
      from Some p have "valid_token tok"
        using match_bracket_valid [of "c # cs" tok rest] by (simp del: match_bracket.simps)
      with True Some p 2 show ?thesis by (simp del: match_bracket.simps)
    qed
  qed
qed

lemma filter_takeWhile_dropWhile:
  "filter P xs = takeWhile P xs @ filter P (dropWhile P xs)"
  by (induction xs) simp_all

lemma filter_digits_not_sep:
  "list_all is_digit ds \<Longrightarrow> filter (\<lambda>c. \<not> is_sep c) ds = ds"
  by (induction ds) (simp_all add: digit_not_sep)

lemma match_bracket_text:
  assumes "match_bracket s = Some (tok, rest)"
  shows "\<exists>raw. token_text tok raw \<and>
           filter (\<lambda>c. \<not> is_sep c) s = raw @ filter (\<lambda>c. \<not> is_sep c) rest"
proof (cases s)
  case Nil
  with assms show ?thesis by simp
next
  case (Cons c cs)
  with assms have c: "c = CHR ''[''" by (simp split: if_splits)
  from assms Cons c obtain d ds where cs: "cs = d # ds"
    by (cases cs) simp_all
  show ?thesis
  proof (cases "d = CHR ''*''")
    case True
    with assms Cons c cs have "ds = CHR '']'' # rest" and "tok = TStr ''*''"
      by (auto split: list.splits if_splits)
    with Cons c cs True show ?thesis by (simp add: is_sep_def)
  next
    case False
    let ?T = "takeWhile is_digit cs"
    from assms Cons c cs False have dig: "is_digit d"
      and dw: "dropWhile is_digit cs = CHR '']'' # rest"
      and tok: "tok = TNum (parseInt ?T)"
      by (auto split: list.splits if_splits)
    have split: "cs = ?T @ CHR '']'' # rest"
      using takeWhile_dropWhile_id [of is_digit cs] dw by simp
    have T: "list_all is_digit ?T" "?T \<noteq> []"
      using dig cs by (auto simp: list_all_iff dest: set_takeWhileD)
    have br: "is_sep (CHR ''['')" "is_sep (CHR '']'')"
      by (simp_all add: is_sep_def)
    have "filter (\<lambda>c. \<not> is_sep c) cs = ?T @ filter (\<lambda>c. \<not> is_sep c) rest"
      by (subst split) (simp add: filter_digits_not_sep T(1) br)
    with Cons c tok T br show ?thesis
      by (intro exI [of _ ?T]) simp
  qed
qed

lemma scan_covers:
  "\<exists>raws. list_all2 token_text (scan s) raws \<and> concat raws = filter (\<lambda>c. \<not> is_sep c) s"
proof (induction s rule: scan.induct)
  case 1
  show ?case by simp
next
  case (2 c cs)
  show ?case
  proof (cases "is_sep c")
    case False
    with 2(1) obtain raws where t: "list_all2 token_text
        (scan (dropWhile (\<lambda>x. \<not> is_sep x) cs)) raws"
      and c: "concat raws = filter (\<lambda>c. \<not> is_sep c) (dropWhile (\<lambda>x. \<not> is_sep x) cs)"
      by blast
    let ?k = "c # takeWhile (\<lambda>x. \<not> is_sep x) cs"
    from False t have "list_all2 token_text (scan (c # cs)) (?k # raws)" by simp
    moreover from False c have "concat (?k # raws) = filter (\<lambda>c. \<not> is_sep c) (c # cs)"
      using filter_takeWhile_dropWhile [of "\<lambda>c. \<not> is_sep c" cs] by simp
    ultimately show ?thesis by blast
  next
    case True
    show ?thesis
    proof (cases "match_bracket (c # cs)")
      case None
      with True 2(2) have "\<exists>raws. list_all2 token_text (scan cs) raws \<and>
          concat raws = filter (\<lambda>c. \<not> is_sep c) cs"
        by blast
      with True None show ?thesis by (simp del: match_bracket.simps)
    next
      case (Some p)
      obtain tok rest where p: "p = (tok, rest)" by (cases p)
      from Some p obtain raw where raw: "token_text tok raw"
        and f: "filter (\<lambda>c. \<not> is_sep c) (c # cs) = raw @ filter (\<lambda>c. \<not> is_sep c) rest"
        using match_bracket_text [of "c # cs" tok rest] by auto
      from 2(3) [OF _ Some p [symmetric]] True obtain raws
        where t: "list_all2 token_text (scan rest) raws"
          and c: "concat raws = filter (\<lambda>c. \<not> is_sep c) rest"
        by auto
      from True Some p t raw have "list_all2 token_text (scan (c # cs)) (raw # raws)"
        by (simp del: match_bracket.simps)
      moreover from f c have "concat (raw # raws) = filter (\<lambda>c. \<not> is_sep c) (c # cs)"
        by simp
      ultimately show ?thesis by blast
    qed
  qed
qed

lemma scan_key:
  assumes "valid_token (TStr k)"
  shows "scan k = [TStr k]"
proof -
  from assms obtain c cs where k: "k = c # cs" by (cases k) auto
  with assms have c: "\<not> is_sep c" and cs: "\<And>x. x \<in> set cs \<Longrightarrow> \<not> is_sep x"
    by (auto simp: list_all_iff)
  from cs have tw: "takeWhile (\<lambda>x. \<not> is_sep x) cs = cs"
    and dw: "dropWhile (\<lambda>x. \<not> is_sep x) cs = []"
    by simp_all
  from c have "scan (c # cs) = [TStr (c # cs)]"
    by (simp only: scan.simps tw dw if_True not_False_eq_True simp_thms)
  with k show ?thesis by simp
qed

lemma scan_key_then_dot:
  assumes "valid_token (TStr k)"
  shows "scan (k @ CHR ''.'' # rest) = TStr k # scan rest"
proof -
  from assms obtain c cs where k: "k = c # cs" by (cases k) auto
  with assms have c: "\<not> is_sep c" and cs: "\<And>x. x \<in> set cs \<Longrightarrow> \<not> is_sep x"
    by (auto simp: list_all_iff)
  have dot: "is_sep (CHR ''.'')" by (simp add: is_sep_def)
  from cs dot have tw: "takeWhile (\<lambda>x. \<not> is_sep x) (cs @ CHR ''.'' # rest) = cs"
    and dw: "dropWhile (\<lambda>x. \<not> is_sep x) (cs @ CHR ''.'' # rest) = CHR ''.'' # rest"
    by (simp_all add: takeWhile_append2 dropWhile_append2)
  have skip: "scan (CHR ''.'' # rest) = scan rest"
    using dot by simp
  from c have "scan (c # cs @ CHR ''.'' # rest) = TStr (c # cs) # scan (CHR ''.'' # rest)"
    by (simp only: scan.simps tw dw if_True not_False_eq_True simp_thms)
  with k skip show ?thesis by simp
qed

lemma scan_dotted:
  assumes "ks \<noteq> []" and "list_all (\<lambda>k. valid_token (TStr k)) ks"
  shows "scan (join ''.'' ks) = map TStr ks"
  using assms
proof (induction ks rule: induct_list012)
  case 1
  then show ?case by simp
next
  case (2 k)
  then show ?case by (simp add: scan_key)
next
  case (3 k k' ks)
  then have "scan (join ''.'' (k' # ks)) = map TStr (k' # ks)" by simp
  moreover from 3 have "valid_token (TStr k)" by simp
  ultimately show ?case by (simp add: scan_key_then_dot)
qed

lemma join_dotted_nonempty:
  assumes "ks \<noteq> []" and "list_all (\<lambda>k. valid_token (TStr k)) ks"
  shows "join ''.'' ks \<noteq> []"
  using assms by (induction ks rule: induct_list012) auto

text \<open>
  C3, as the code has it. \<^verbatim>\<open>parsePath\<close> is total on strings and has no failure at all:
  every string yields a sequence of valid tokens, and the tokens cover, in order, every
  character of the input but the characters \<^verbatim>\<open>.\<close>, \<^verbatim>\<open>[\<close> and \<^verbatim>\<open>]\<close>, which are dropped
  wherever they stand. Keys joined by dots are read as exactly those keys, and
  \<^verbatim>\<open>"users[0].id"\<close> and \<^verbatim>\<open>"users[*].email"\<close> as written; the unterminated bracket of
  \<^verbatim>\<open>"a[1"\<close> is not reported: the result is the two keys \<^verbatim>\<open>a\<close> and \<^verbatim>\<open>1\<close>.
\<close>

theorem parsePath_string_total:
  "(\<exists>ts raws. parsePath (PStr s) = Inr ts \<and> list_all valid_token ts \<and>
      list_all2 token_text ts raws \<and> concat raws = filter (\<lambda>c. \<not> is_sep c) s) \<and>
   (ks \<noteq> [] \<and> list_all (\<lambda>k. valid_token (TStr k)) ks \<longrightarrow>
      parsePath (PStr (join ''.'' ks)) = Inr (map TStr ks)) \<and>
   parsePath (PStr ''users[0].id'') = Inr [TStr ''users'', TNum 0, TStr ''id''] \<and>
   parsePath (PStr ''users[*].email'') = Inr [TStr ''users'', TStr ''*'', TStr ''email''] \<and>
   parsePath (PStr ''a[1'') = Inr [TStr ''a'', TStr ''1'']"
proof (intro conjI impI)
  from scan_covers [of s] obtain raws where "list_all2 token_text (scan s) raws"
    and "concat raws = filter (\<lambda>c. \<not> is_sep c) s" by blast
  then show "\<exists>ts raws. parsePath (PStr s) = Inr ts \<and> list_all valid_token ts \<and>
      list_all2 token_text ts raws \<and> concat raws = filter (\<lambda>c. \<not> is_sep c) s"
    by (cases "s = []") (auto simp: scan_valid)
next
  assume "ks \<noteq> [] \<and> list_all (\<lambda>k. valid_token (TStr k)) ks"
  then show "parsePath (PStr (join ''.'' ks)) = Inr (map TStr ks)"
    by (simp add: scan_dotted join_dotted_nonempty)
qed (simp_all add: is_sep_def is_digit_def parseInt_def digit_val_def)

theorem parsePath_string_total_witness:
  "[''user'', ''profile'', ''name''] \<noteq> [] \<and>
   list_all (\<lambda>k. valid_token (TStr k)) [''user'', ''profile'', ''name''] \<and>
   parsePath (PStr ''user.profile.name'') =
     Inr [TStr ''user'', TStr ''profile'', TStr ''name'']"
  using parsePath_string_total [of _ "[''user'', ''profile'', ''name'']"]
  by (simp add: is_sep_def)

text \<open>
  C3, as stated, fails at \<^verbatim>\<open>"a[1"\<close>: the result is not a failure, and the bracket is
  dropped without a trace, the tokens being those of \<^verbatim>\<open>"a.1"\<close>.
\<close>

theorem parsePath_unterminated_bracket:
  "\<not> isl (parsePath (PStr ''a[1'')) \<and>
   parsePath (PStr ''a[1'') = parsePath (PStr ''a.1'')"
  by (simp add: is_sep_def)

section \<open>The object-of-objects fallback\<close>

text \<open>
  C4, as the code has it. On \<^verbatim>\<open>{"a":{"x":1},"b":{"y":2}}\<close> the path \<^verbatim>\<open>"a"\<close> resolves only to
  the mapping \<^verbatim>\<open>{"x":1}\<close>; no array is found, so the fallback for an object of objects
  returns the values of that mapping, \<^verbatim>\<open>[1]\<close>.
\<close>

theorem resolveArray_mapping_fallback:
  "extractValues lim (JObj [(''a'', JObj [(''x'', JNum 1)]), (''b'', JObj [(''y'', JNum 2)])])
     (PStr ''a'') = Inr [JObj [(''x'', JNum 1)]] \<and>
   resolveArray lim (JObj [(''a'', JObj [(''x'', JNum 1)]), (''b'', JObj [(''y'', JNum 2)])])
     (PStr ''a'') = Inr [JNum 1]"
  by (simp add: resolveArray_def truthy_path_def path_eval_simps)

text \<open>C4, as stated, fails: the result is not the empty sequence.\<close>

theorem resolveArray_mapping_not_empty:
  "\<forall>lim. resolveArray lim
     (JObj [(''a'', JObj [(''x'', JNum 1)]), (''b'', JObj [(''y'', JNum 2)])])
     (PStr ''a'') \<noteq> Inr []"
  by (simp add: resolveArray_def truthy_path_def path_eval_simps)

section \<open>Arrays in mode expand\<close>

lemma walk_items_expand:
  "walk_items sep ''expand'' xs idx p out = fold (\<lambda>inner. walk sep ''expand'' inner p) xs out"
  by (induction xs arbitrary: idx out) simp_all

text \<open>
  C5, as the code has it. In mode \<^verbatim>\<open>expand\<close> an array with at least one composite element
  falls through to the loop over its elements, but the prefix is not extended there: every
  element is walked, in order, with the prefix of the array itself.
\<close>

theorem walk_expand_composite:
  assumes "\<not> list_all (\<lambda>item. \<not> truthy_object item) xs"
  shows "walk sep ''expand'' (JArr xs) p out =
           fold (\<lambda>inner. walk sep ''expand'' inner p) xs out"
proof -
  from assms have "xs \<noteq> []" by auto
  with assms show ?thesis by (simp add: walk_items_expand)
qed

theorem walk_expand_composite_witness:
  "\<not> list_all (\<lambda>item. \<not> truthy_object item) [JObj [(''x'', JNum 1)], JNum 7] \<and>
   walk ''.'' ''expand'' (JArr [JObj [(''x'', JNum 1)], JNum 7]) ''a'' empty_object =
     \<lparr>own = [(''a.x'', JNum 1), (''a'', JNum 7)], proto_cut = False\<rparr>"
proof -
  have h: "\<not> list_all (\<lambda>item. \<not> truthy_object item) [JObj [(''x'', JNum 1)], JNum 7]"
    by simp
  have "fold (\<lambda>inner. walk ''.'' ''expand'' inner ''a'') [JObj [(''x'', JNum 1)], JNum 7]
          empty_object
        = \<lparr>own = [(''a.x'', JNum 1), (''a'', JNum 7)], proto_cut = False\<rparr>"
    by (simp add: object_eval_simps)
  with h walk_expand_composite [OF h, of "''.''" "''a''" empty_object] show ?thesis by simp
qed

text \<open>
  C5, as stated, fails on \<^verbatim>\<open>{"a":[{"x":1}]}\<close>: mode \<^verbatim>\<open>expand\<close> gives the key \<^verbatim>\<open>a.x\<close>, without
  the \<^verbatim>\<open>[0]\<close> that mode \<^verbatim>\<open>index\<close> inserts.
\<close>

theorem flatten_expand_not_index:
  "flattenJson (JObj [(''a'', JArr [JObj [(''x'', JNum 1)]])]) ''.'' ''expand''
     = JObj [(''a.x'', JNum 1)] \<and>
   flattenJson (JObj [(''a'', JArr [JObj [(''x'', JNum 1)]])]) ''.'' ''index''
     = JObj [(''a[0].x'', JNum 1)]"
  by (simp add: flattenJson_def object_eval_simps)

section \<open>Path arguments that are not strings\<close>

lemma bounded_list_iff: "bounded_list lim xs = list_all (bounded lim) xs"
  by (induction xs) simp_all

lemma bounded_entries_iff: "bounded_entries lim kvs = list_all (bounded lim) (map snd kvs)"
  by (induction kvs) auto

lemma own_property_bounded:
  assumes "bounded lim item" and "own_property item k = Some v"
  shows "bounded lim v"
proof (cases item)
  case (JArr xs)
  with assms show ?thesis
    by (auto simp: bounded_list_iff list_all_length split: if_splits)
next
  case (JObj kvs)
  with assms have "(k, v) \<in> set kvs" and "list_all (bounded lim) (map snd kvs)"
    by (auto simp: bounded_entries_iff dest: map_of_SomeD)
  then show ?thesis by (force simp: list_all_iff)
qed (use assms in simp_all)

lemma emit_bounded:
  assumes "bounded lim item"
  shows "\<exists>out. emit lim token item = Inr out \<and> list_all (bounded lim) out"
proof (cases "token = TStr ''*''")
  case True
  with assms show ?thesis
    by (cases item) (simp_all add: emit_def spread_def bounded_list_iff bounded_entries_iff)
next
  case star: False
  show ?thesis
  proof (cases "isInteger token")
    case True
    then obtain n where n: "token = TNum n" by (cases token) simp_all
    with assms True star show ?thesis
      by (cases item) (auto simp: emit_def bounded_list_iff list_all_length)
  next
    case False
    show ?thesis
    proof (cases "own_property item (propertyKey token)")
      case None
      with star False show ?thesis by (simp add: emit_def)
    next
      case (Some v)
      with assms have "bounded lim v" by (rule own_property_bounded)
      with star False Some show ?thesis by (simp add: emit_def)
    qed
  qed
qed

lemma emit_all_bounded:
  "list_all (bounded lim) values \<Longrightarrow>
   \<exists>out. emit_all lim token values = Inr out \<and> list_all (bounded lim) out"
proof (induction "values")
  case Nil
  show ?case by simp
next
  case (Cons item rest)
  then obtain pushed more where "emit lim token item = Inr pushed"
    and "list_all (bounded lim) pushed" and "emit_all lim token rest = Inr more"
    and "list_all (bounded lim) more"
    using emit_bounded [of lim item token] by auto
  then show ?case by simp
qed

lemma eval_tokens_bounded:
  "list_all (bounded lim) values \<Longrightarrow>
   \<exists>out. eval_tokens lim tokens values = Inr out \<and> list_all (bounded lim) out"
proof (induction tokens arbitrary: "values")
  case Nil
  then show ?case by simp
next
  case (Cons token tokens)
  from emit_all_bounded [OF Cons.prems, of token] obtain nextValues
    where n: "emit_all lim token values = Inr nextValues"
      and b: "list_all (bounded lim) nextValues" by blast
  from Cons.IH [OF b] n show ?case by simp
qed

lemma emit_no_wildcard: "token \<noteq> TStr ''*'' \<Longrightarrow> \<exists>out. emit lim token item = Inr out"
  by (auto simp: emit_def split: token.splits json.splits option.splits)

lemma emit_all_no_wildcard:
  "token \<noteq> TStr ''*'' \<Longrightarrow> \<exists>out. emit_all lim token values = Inr out"
proof (induction "values")
  case Nil
  show ?case by simp
next
  case (Cons item rest)
  then obtain pushed more where "emit lim token item = Inr pushed"
    and "emit_all lim token rest = Inr more"
    using emit_no_wildcard [of token lim item] by auto
  then show ?case by simp
qed

lemma eval_tokens_no_wildcard:
  "TStr ''*'' \<notin> set tokens \<Longrightarrow> \<exists>out. eval_tokens lim tokens values = Inr out"
proof (induction tokens arbitrary: "values")
  case Nil
  show ?case by simp
next
  case (Cons token tokens)
  then have "token \<noteq> TStr ''*''" and rest: "TStr ''*'' \<notin> set tokens" by auto
  then obtain nextValues where n: "emit_all lim token values = Inr nextValues"
    using emit_all_no_wildcard [of token lim "values"] by auto
  from Cons.IH [OF rest, of nextValues] n show ?case by simp
qed

lemma eval_tokens_empty: "eval_tokens lim tokens [] = Inr []"
  by (induction tokens) simp_all

lemma emit_scalar: "\<not> truthy_object item \<Longrightarrow> emit lim token item = Inr []"
  by (cases item) (auto simp: emit_def split: token.splits)

lemma emit_missing_key:
  assumes "k \<noteq> ''*''" and "k \<notin> set (map fst kvs)"
  shows "emit lim (TStr k) (JObj kvs) = Inr []"
proof -
  from assms(2) have "map_of kvs k = None" by (simp add: map_of_eq_None_iff)
  with assms(1) show ?thesis by (simp add: emit_def)
qed

text \<open>
  The error path of the wildcard: an array longer than the limit cannot be spread.
\<close>

lemma wildcard_over_limit:
  "lim < length xs \<Longrightarrow> extractValues lim (JArr xs) (PStr ''[*]'') = Inl RangeError"
  by (simp add: path_eval_simps)

text \<open>
  C6, as the code has it. For a path string, and for an absent path, \<^verbatim>\<open>extractValues\<close>
  completes normally with a sequence of values as long as no wildcard has to spread more
  elements than one call accepts: for every document whose arrays and mappings stay
  within that limit, and for every document when the path has no wildcard token. Where
  nothing matches the sequence is empty: for a scalar document under any path with a
  token, and for a mapping under a key that it does not have.
\<close>

theorem extractValues_string_total:
  "(bounded lim d \<longrightarrow> (\<exists>vs. extractValues lim d (PStr s) = Inr vs)) \<and>
   (TStr ''*'' \<notin> set (scan s) \<longrightarrow> (\<exists>vs. extractValues lim d (PStr s) = Inr vs)) \<and>
   extractValues lim d PNull = Inr [d] \<and>
   (\<not> truthy_object d \<and> scan s \<noteq> [] \<longrightarrow> extractValues lim d (PStr s) = Inr []) \<and>
   (valid_token (TStr k) \<and> k \<noteq> ''*'' \<and> k \<notin> set (map fst kvs) \<longrightarrow>
      extractValues lim (JObj kvs) (PStr k) = Inr [])"
proof (intro conjI impI)
  assume "bounded lim d"
  then have "list_all (bounded lim) [d]" by simp
  from eval_tokens_bounded [OF this, of "scan s"]
  show "\<exists>vs. extractValues lim d (PStr s) = Inr vs"
    by (auto simp: extractValues_def)
next
  assume "TStr ''*'' \<notin> set (scan s)"
  from eval_tokens_no_wildcard [OF this, of lim "[d]"]
  show "\<exists>vs. extractValues lim d (PStr s) = Inr vs"
    by (auto simp: extractValues_def)
next
  show "extractValues lim d PNull = Inr [d]"
    by (simp add: extractValues_def)
next
  assume a: "\<not> truthy_object d \<and> scan s \<noteq> []"
  then obtain t ts where ts: "scan s = t # ts" by (cases "scan s") auto
  from a have "emit lim t d = Inr []" by (simp add: emit_scalar)
  with ts a show "extractValues lim d (PStr s) = Inr []"
    by (cases "s = []") (simp_all add: extractValues_def eval_tokens_empty)
next
  assume a: "valid_token (TStr k) \<and> k \<noteq> ''*'' \<and> k \<notin> set (map fst kvs)"
  then have sc: "scan k = [TStr k]" and "k \<noteq> []" by (simp_all add: scan_key)
  moreover from a have "emit lim (TStr k) (JObj kvs) = Inr []"
    by (simp add: emit_missing_key)
  ultimately show "extractValues lim (JObj kvs) (PStr k) = Inr []"
    by (simp add: extractValues_def)
qed

theorem extractValues_string_total_witness:
  "bounded 2 (JObj [(''a'', JArr [JNum 1, JNum 2])]) \<and>
   extractValues 2 (JObj [(''a'', JArr [JNum 1, JNum 2])]) (PStr ''a[*]'')
     = Inr [JNum 1, JNum 2] \<and>
   TStr ''*'' \<notin> set (scan ''a[1]'') \<and>
   extractValues 0 (JObj [(''a'', JArr [JNum 1, JNum 2])]) (PStr ''a[1]'') = Inr [JNum 2] \<and>
   \<not> truthy_object (JNum 5) \<and> scan ''a.b'' \<noteq> [] \<and>
   extractValues 2 (JNum 5) (PStr ''a.b'') = Inr [] \<and>
   valid_token (TStr ''b'') \<and> ''b'' \<noteq> ''*'' \<and> ''b'' \<notin> set (map fst [(''a'', JNull)]) \<and>
   extractValues 2 (JObj [(''a'', JNull)]) (PStr ''b'') = Inr []"
  using extractValues_string_total [of 2 "JObj [(''a'', JArr [JNum 1, JNum 2])]" "''a[*]''"
      "''b''" "[(''a'', JNull)]"]
    extractValues_string_total [of 0 "JObj [(''a'', JArr [JNum 1, JNum 2])]" "''a[1]''"]
    extractValues_string_total [of 2 "JNum 5" "''a.b''"]
  by (simp add: path_eval_simps)

text \<open>
  C6, as stated, fails for an already-parsed token sequence: \<^verbatim>\<open>extractValues\<close> hands its
  path to \<^verbatim>\<open>parsePath\<close>, which throws on an array. The same path as a string is fine.
\<close>

theorem extractValues_tokens_throw:
  "(\<forall>lim. extractValues lim (JObj [(''a'', JNum 1)]) (PArr [TStr ''a'']) = Inl TypeError) \<and>
   (\<forall>lim. extractValues lim (JObj [(''a'', JNum 1)]) (PStr ''a'') = Inr [JNum 1])"
  by (simp add: path_eval_simps)

section \<open>Terminal nodes of the flattener\<close>

lemma map_of_update_property:
  "k \<in> set (map fst ps) \<Longrightarrow> map_of (update_property k v ps) = (map_of ps)(k \<mapsto> v)"
proof (induction ps)
  case Nil
  then show ?case by simp
next
  case (Cons e ps)
  obtain a b where e: "e = (a, b)" by (cases e)
  show ?case
  proof (cases "a = k")
    case True
    with e show ?thesis by (auto simp: fun_eq_iff)
  next
    case False
    with Cons.prems e have "k \<in> set (map fst ps)" by auto
    with Cons.IH have "map_of (update_property k v ps) = (map_of ps)(k \<mapsto> v)" .
    with False e show ?thesis by (auto simp: fun_eq_iff)
  qed
qed

lemma map_of_insert_property:
  "k \<notin> set (map fst ps) \<Longrightarrow> map_of (insert_property k v ps) = (map_of ps)(k \<mapsto> v)"
  by (induction ps) (auto simp: fun_upd_twist)

lemma map_of_put_property: "map_of (put_property k v ps) = (map_of ps)(k \<mapsto> v)"
  by (simp add: put_property_def map_of_update_property map_of_insert_property)

lemma own_assign:
  "k \<noteq> ''__proto__'' \<Longrightarrow> map_of (own (assign k v obj)) = (map_of (own obj))(k \<mapsto> v)"
  by (simp add: assign_def map_of_put_property)

text \<open>
  C7, as the code has it. A terminal node reached at prefix \<open>p\<close> changes the output under
  the key \<open>p\<close> at most, and under no other key (for every key but \<^verbatim>\<open>__proto__\<close>, which an
  assignment treats as the prototype slot): a scalar records \<open>p \<mapsto> value\<close>, also at the
  empty prefix; an empty mapping records \<open>p \<mapsto> {}\<close> when \<open>p\<close> is not empty; an empty array
  records \<open>p \<mapsto> []\<close> when \<open>p\<close> is not empty or the mode is \<^verbatim>\<open>ignore\<close> or \<^verbatim>\<open>expand\<close>. At the top
  level an empty mapping leaves the output empty in every mode, and so does an empty array
  in mode \<^verbatim>\<open>index\<close>.
\<close>

theorem walk_terminal_node:
  assumes "p \<noteq> ''__proto__''"
  shows
    "(\<not> truthy_object v \<longrightarrow>
        map_of (own (walk sep mode v p out)) = (map_of (own out))(p \<mapsto> v)) \<and>
     map_of (own (walk sep mode (JObj []) p out)) =
       (if p \<noteq> [] then (map_of (own out))(p \<mapsto> JObj []) else map_of (own out)) \<and>
     map_of (own (walk sep mode (JArr []) p out)) =
       (if p \<noteq> [] \<or> mode = ''ignore'' \<or> mode = ''expand''
        then (map_of (own out))(p \<mapsto> JArr []) else map_of (own out)) \<and>
     flattenJson (JObj []) sep mode = JObj [] \<and>
     flattenJson (JArr []) sep ''index'' = JObj []"
proof (intro conjI impI)
  assume "\<not> truthy_object v"
  with assms show "map_of (own (walk sep mode v p out)) = (map_of (own out))(p \<mapsto> v)"
    by (cases v) (simp_all add: own_assign)
next
  from assms show "map_of (own (walk sep mode (JObj []) p out)) =
      (if p \<noteq> [] then (map_of (own out))(p \<mapsto> JObj []) else map_of (own out))"
    by (simp add: own_assign)
next
  from assms show "map_of (own (walk sep mode (JArr []) p out)) =
      (if p \<noteq> [] \<or> mode = ''ignore'' \<or> mode = ''expand''
       then (map_of (own out))(p \<mapsto> JArr []) else map_of (own out))"
    by (auto simp: own_assign)
next
  show "flattenJson (JObj []) sep mode = JObj []"
    by (simp add: flattenJson_def empty_object_def)
next
  show "flattenJson (JArr []) sep ''index'' = JObj []"
    by (simp add: flattenJson_def empty_object_def)
qed

theorem walk_terminal_node_witness:
  "''a.b'' \<noteq> ''__proto__'' \<and>
   map_of (own (walk ''.'' ''index'' (JObj []) ''a.b'' empty_object)) ''a.b'' = Some (JObj []) \<and>
   map_of (own (walk ''.'' ''index'' (JArr []) ''a.b'' empty_object)) ''a.b'' = Some (JArr []) \<and>
   map_of (own (walk ''.'' ''index'' (JNum 3) ''a.b'' empty_object)) ''a.b'' = Some (JNum 3)"
  using walk_terminal_node [of "''a.b''" "JNum 3" "''.''" "''index''" empty_object]
  by simp

text \<open>
  C7, as stated, fails at the top level: the empty mapping and, in mode \<^verbatim>\<open>index\<close>, the
  empty array are terminal nodes that yield no entry. It also fails where two terminal
  nodes meet under one key: \<^verbatim>\<open>{"a.b":1,"a":{"b":2}}\<close> has two of them and one entry.
\<close>

theorem flatten_top_level_dropped:
  "flattenJson (JObj []) ''.'' ''index'' = JObj [] \<and>
   flattenJson (JArr []) ''.'' ''index'' = JObj [] \<and>
   flattenJson (JObj [(''a.b'', JNum 1), (''a'', JObj [(''b'', JNum 2)])]) ''.'' ''index''
     = JObj [(''a.b'', JNum 2)]"
  by (simp add: flattenJson_def object_eval_simps)

section \<open>The canonical string ignores the order of keys\<close>

lemma struct_eq_canonical:
  "(struct_eq v w \<longrightarrow>
      stableSortKeys v = stableSortKeys w \<and> truthy_object v = truthy_object w \<and>
      (truthy_object v \<or> v = w))"
  "(struct_eq_list xs ys \<longrightarrow> map stableSortKeys xs = map stableSortKeys ys)"
  "(struct_eq_entries kvs kvs' \<longrightarrow>
      (\<forall>k v. (k, v) \<in> set kvs \<longrightarrow>
         (\<exists>v'. map_of kvs' k = Some v' \<and> stableSortKeys v = stableSortKeys v')))"
proof (induction v w and xs ys and kvs kvs'
    rule: struct_eq_struct_eq_list_struct_eq_entries.induct)
  case (6 kvs w)
  show ?case
  proof (cases w)
    case (JObj kvs')
    show ?thesis
    proof
      assume se: "struct_eq (JObj kvs) w"
      with JObj have d: "distinct (map fst kvs)" and d': "distinct (map fst kvs')"
        and ks: "set (map fst kvs) = set (map fst kvs')" and en: "struct_eq_entries kvs kvs'"
        by simp_all
      let ?g = "map_prod id stableSortKeys :: string \<times> json \<Rightarrow> string \<times> json"
      from 6 [OF JObj] en
      have look: "\<And>k v. (k, v) \<in> set kvs \<Longrightarrow>
          \<exists>v'. map_of kvs' k = Some v' \<and> stableSortKeys v = stableSortKeys v'"
        by blast
      have sub: "set (map ?g kvs) \<subseteq> set (map ?g kvs')"
      proof
        fix e assume "e \<in> set (map ?g kvs)"
        then obtain k v where kv: "(k, v) \<in> set kvs" and e: "e = (k, stableSortKeys v)"
          by auto
        from look [OF kv] obtain v' where "map_of kvs' k = Some v'"
          and "stableSortKeys v = stableSortKeys v'" by blast
        then have "(k, v') \<in> set kvs'" and "e = ?g (k, v')"
          using e by (auto dest: map_of_SomeD)
        then show "e \<in> set (map ?g kvs')" by (metis image_eqI set_map)
      qed
      have sup: "set (map ?g kvs') \<subseteq> set (map ?g kvs)"
      proof
        fix e assume "e \<in> set (map ?g kvs')"
        then obtain k v' where kv': "(k, v') \<in> set kvs'" and e: "e = (k, stableSortKeys v')"
          by auto
        from kv' have "k \<in> set (map fst kvs')" by force
        with ks have "k \<in> set (map fst kvs)" by simp
        then obtain v where kv: "(k, v) \<in> set kvs" by auto
        from look [OF kv] obtain v'' where m: "map_of kvs' k = Some v''"
          and s: "stableSortKeys v = stableSortKeys v''" by blast
        from d' kv' have "map_of kvs' k = Some v'" by simp
        with m have "v'' = v'" by simp
        with s e have "e = ?g (k, v)" by simp
        with kv show "e \<in> set (map ?g kvs)" by (metis image_eqI set_map)
      qed
      have fst_g: "map fst (map ?g kvs) = map fst kvs" "map fst (map ?g kvs') = map fst kvs'"
        by (simp_all add: comp_def)
      from d d' fst_g have dg: "distinct (map ?g kvs)" and dg': "distinct (map ?g kvs')"
        by (metis distinct_map)+
      from sub sup have "set (map ?g kvs) = set (map ?g kvs')"
        by (rule subset_antisym)
      with dg dg' have ms: "mset (map ?g kvs) = mset (map ?g kvs')"
        by (rule set_eq_iff_mset_eq_distinct [THEN iffD1])
      have inj: "inj_on fst (set (map ?g kvs))"
        using d fst_g(1) by (metis distinct_map)
      have "sort_key fst (map ?g kvs) = sort_key fst (map ?g kvs')"
      proof (rule sort_key_inj_key_eq [OF _ inj])
        show "mset (map ?g kvs) = mset (sort_key fst (map ?g kvs'))"
          using ms by simp
        show "sorted (map fst (sort_key fst (map ?g kvs')))" by simp
      qed
      with JObj show "stableSortKeys (JObj kvs) = stableSortKeys w \<and>
          truthy_object (JObj kvs) = truthy_object w \<and>
          (truthy_object (JObj kvs) \<or> JObj kvs = w)"
        by simp
    qed
  qed simp_all
next
  case (5 xs w)
  then show ?case by (cases w) simp_all
next
  case (8 x xs ys)
  then show ?case by (cases ys) simp_all
next
  case (10 k v kvs kvs')
  then show ?case by (auto split: option.splits)
qed simp_all

text \<open>
  C8. Structurally equal values have the same canonical string, whatever the order of
  the keys of their mappings, as \<^verbatim>\<open>{"b":2,"a":1}\<close> and \<^verbatim>\<open>{"a":1,"b":2}\<close> do; the order of
  the elements of an array matters: \<^verbatim>\<open>[1,2]\<close> and \<^verbatim>\<open>[2,1]\<close> have different canonical strings.
\<close>

theorem normalized_key_order_independent:
  "(\<forall>v w. struct_eq v w \<longrightarrow> normalized v = normalized w) \<and>
   normalized (JObj [(''b'', JNum 2), (''a'', JNum 1)]) =
     normalized (JObj [(''a'', JNum 1), (''b'', JNum 2)]) \<and>
   normalized (JArr [JNum 1, JNum 2]) \<noteq> normalized (JArr [JNum 2, JNum 1])"
proof (intro conjI allI impI)
  fix v w assume "struct_eq v w"
  with struct_eq_canonical(1) [of v w]
  have "stableSortKeys v = stableSortKeys w" and "truthy_object v = truthy_object w"
    and "truthy_object v \<or> v = w" by blast+
  then show "normalized v = normalized w"
    by (cases "truthy_object v") (simp_all add: normalized_def)
qed (simp_all add: key_eval_simps object_eval_simps)

theorem normalized_key_order_independent_witness:
  "struct_eq
     (JObj [(''b'', JNum 2),
            (''a'', JArr [JStr ''x'', JObj [(''p'', JNull), (''q'', JBool True)]])])
     (JObj [(''a'', JArr [JStr ''x'', JObj [(''q'', JBool True), (''p'', JNull)]]),
            (''b'', JNum 2)]) \<and>
   normalized
     (JObj [(''b'', JNum 2),
            (''a'', JArr [JStr ''x'', JObj [(''p'', JNull), (''q'', JBool True)]])]) =
   normalized
     (JObj [(''a'', JArr [JStr ''x'', JObj [(''q'', JBool True), (''p'', JNull)]]),
            (''b'', JNum 2)])"
proof -
  have h: "struct_eq
     (JObj [(''b'', JNum 2),
            (''a'', JArr [JStr ''x'', JObj [(''p'', JNull), (''q'', JBool True)]])])
     (JObj [(''a'', JArr [JStr ''x'', JObj [(''q'', JBool True), (''p'', JNull)]]),
            (''b'', JNum 2)])"
    by (simp add: insert_commute)
  from normalized_key_order_independent h show ?thesis by blast
qed

section \<open>Scalars of different types under one key\<close>

text \<open>
  C9. The key of a scalar does not tell its type: \<^verbatim>\<open>true\<close> and \<^verbatim>\<open>"True"\<close>, \<^verbatim>\<open>1\<close> and \<^verbatim>\<open>"1"\<close>,
  \<^verbatim>\<open>null\<close> and \<^verbatim>\<open>"None"\<close> have different type tags and the same key, and \<^verbatim>\<open>frequency\<close>
  counts each pair in one bucket.
\<close>

theorem frequency_merges_types:
  "typeName (JBool True) \<noteq> typeName (JStr ''True'') \<and>
   pyScalarString (JBool True) = pyScalarString (JStr ''True'') \<and>
   typeName (JNum 1) \<noteq> typeName (JStr ''1'') \<and>
   pyScalarString (JNum 1) = pyScalarString (JStr ''1'') \<and>
   typeName JNull \<noteq> typeName (JStr ''None'') \<and>
   pyScalarString JNull = pyScalarString (JStr ''None'') \<and>
   frequency [JBool True, JStr ''True''] = [(''True'', 2)] \<and>
   frequency [JNum 1, JStr ''1''] = [(''1'', 2)] \<and>
   frequency [JNull, JStr ''None''] = [(''None'', 2)]"
  by (simp add: frequency_def key_eval_simps nat_to_string.simps digit_char_def)

section \<open>The empty string as array path\<close>

text \<open>
  C10. An empty string as \<^verbatim>\<open>arrayPath\<close> is treated as an absent path: the result is the
  document when it is an array and the empty sequence otherwise (so never the values of a
  mapping), although the empty path resolves to the whole document.
\<close>

theorem resolveArray_empty_path:
  "resolveArray lim d (PStr []) = resolveArray lim d PNull \<and>
   resolveArray lim d (PStr []) = Inr (case d of JArr xs \<Rightarrow> xs | _ \<Rightarrow> []) \<and>
   extractValues lim d (PStr []) = Inr [d]"
  by (cases d) (simp_all add: resolveArray_def truthy_path_def extractValues_def)

end
